theory Spec2Isabelle
  imports Complex_Main "HOL-Library.Sublist"
begin

section \<open>EmpowerHer safety backend (app.py): scoring, routes, chat rules, incident store\<close>

text \<open>
  The development follows \<^verbatim>\<open>src/Webathon/app.py\<close>. Conventions of the embedding:
  \<^item> A Python float is a \<^typ>\<open>real\<close>. \<open>mock_predict_double\<close> rounds every operation to
    double precision, and the exact value of the score is stated on it. The other
    definitions compute over the exact reals: what is stated on them does not depend on the
    last digits, and every concrete input used with them keeps a margin of at least
    \<open>0.0001\<close> to the nearest threshold or rounding tie, far above double precision error.
  \<^item> \<^verbatim>\<open>datetime.datetime.now()\<close> and \<^verbatim>\<open>random()\<close> are inputs of the functions that
    call them (\<open>now\<close> and \<open>r\<close>), so that each function is a pure function of its inputs.
  \<^item> A raised exception is the \<open>Inl\<close> branch of a sum type.
  \<^item> \<^verbatim>\<open>print\<close> calls write to the server log only and are left out.
\<close>

subsection \<open>Time and numbers\<close>

text \<open>The fields of a \<^verbatim>\<open>datetime.datetime\<close>; \<open>hour\<close> is in \<open>0..23\<close> for a real clock.\<close>

record datetime =
  year :: int
  month :: int
  day :: int
  hour :: int
  minute :: int
  second :: int
  microsecond :: int

text \<open>
  Python's \<^verbatim>\<open>round(x, ndigits)\<close> on a float rounds to the nearest multiple of
  \<open>10^-ndigits\<close>, a tie going to the even neighbour.
\<close>

definition round_half_even :: "real \<Rightarrow> int" where
  "round_half_even x =
     (let f = \<lfloor>x\<rfloor>; d = x - of_int f
      in if d < 1 / 2 then f
         else if d > 1 / 2 then f + 1
         else if even f then f else f + 1)"

definition py_round :: "real \<Rightarrow> nat \<Rightarrow> real" where
  "py_round x ndigits = of_int (round_half_even (x * 10 ^ ndigits)) / 10 ^ ndigits"

subsection \<open>Double precision\<close>

text \<open>
  A Python float is an IEEE 754 double. \<open>dbl x\<close> is the double nearest to the real \<open>x\<close>,
  a tie going to the even significand: \<open>expo x\<close> is the binary exponent of \<open>x\<close>, the spacing
  of the doubles around \<open>x\<close> is \<open>2^(expo x - 52)\<close>, and not less than \<open>2^-1074\<close> (the subnormal
  range). The result of a float operation is \<open>dbl\<close> of the exact result, and a float literal
  denotes \<open>dbl\<close> of its decimal value. This holds for magnitudes below \<open>2^1024\<close>, which the
  prediction never leaves.
\<close>

function ilog2 :: "int \<Rightarrow> nat" where
  "ilog2 n = (if n < 2 then 0 else Suc (ilog2 (n div 2)))"
  by pat_completeness auto
termination
  by (relation "measure nat") auto

declare ilog2.simps [simp del]

definition pow2 :: "int \<Rightarrow> real" where
  "pow2 e = (if 0 \<le> e then 2 ^ nat e else 1 / 2 ^ nat (- e))"

definition expo :: "real \<Rightarrow> int" where
  "expo x =
     (let a = \<bar>x\<bar>
      in if 1 \<le> a then int (ilog2 \<lfloor>a\<rfloor>)
         else - int (Suc (ilog2 (\<lceil>1 / a\<rceil> - 1))))"

definition dbl :: "real \<Rightarrow> real" where
  "dbl x =
     (if x = 0 then 0
      else (let u = pow2 (max (expo x) (- 1022) - 52)
            in of_int (round_half_even (x / u)) * u))"

text \<open>
  \<^verbatim>\<open>round(x, ndigits)\<close> on a float \<open>x\<close>: the decimal rounding of the exact value of \<open>x\<close>,
  delivered as a float.
\<close>

definition py_round_float :: "real \<Rightarrow> nat \<Rightarrow> real" where
  "py_round_float x ndigits = dbl (py_round x ndigits)"

subsection \<open>Mock prediction logic\<close>

text \<open>A waypoint \<^verbatim>\<open>{'lat': .., 'lng': ..}\<close>.\<close>

record waypoint =
  lat :: real
  lng :: real

text \<open>The dictionary returned by \<^verbatim>\<open>mock_predict\<close>.\<close>

record assessment =
  score :: real
  label :: string
  color :: string
  alt_route :: "waypoint list"
  steps :: "string list"

text \<open>
  \<^verbatim>\<open>mock_predict(lat, lng)\<close>, lines 65-78. The parameters \<open>la\<close>, \<open>lo\<close> are the source's
  \<^verbatim>\<open>lat\<close>, \<^verbatim>\<open>lng\<close>; \<open>now\<close> is the clock reading and \<open>r\<close> the value of \<^verbatim>\<open>random()\<close>.
  The label is chosen from the clamped score before it is rounded; the rounded score is
  what the dictionary carries.
\<close>

definition mock_predict :: "real \<Rightarrow> real \<Rightarrow> datetime \<Rightarrow> real \<Rightarrow> assessment" where
  "mock_predict la lo now r =
     (let h = hour now;
          base = 0.62 - (real_of_int (abs (22 - h)) / 44.0);
          noise = (r - 0.5) * 0.28;
          sc = max 0.0 (min 1.0 (base + noise));
          (lbl, col) =
            (if sc > 0.75 then (''Safe'', ''green'')
             else if sc > 0.45 then (''Caution'', ''orange'')
             else (''Unsafe'', ''red''));
          alt = [\<lparr>lat = la + 0.0015, lng = lo + 0.0006\<rparr>,
                 \<lparr>lat = la + 0.0031, lng = lo + 0.0011\<rparr>];
          stps = [''Head north for 200m'', ''Turn right at the park'',
                  ''Continue straight for 300m'']
      in \<lparr>score = py_round sc 3, label = lbl, color = col, alt_route = alt, steps = stps\<rparr>)"

text \<open>
  The value of the source's variable \<^verbatim>\<open>score\<close> after line 69: clamped, not yet rounded.
\<close>

definition clamped_score :: "datetime \<Rightarrow> real \<Rightarrow> real" where
  "clamped_score now r =
     max 0.0 (min 1.0 (0.62 - (real_of_int (abs (22 - hour now)) / 44.0) + (r - 0.5) * 0.28))"

text \<open>
  \<^verbatim>\<open>mock_predict\<close> as the interpreter computes it, lines 65-78 with every literal and
  every operation in double precision. \<open>mock_predict\<close> above is the same text over the
  exact reals; the two give different results only where the exact score lies within the
  rounding error of a threshold or of a rounding tie.
\<close>

definition mock_predict_double :: "real \<Rightarrow> real \<Rightarrow> datetime \<Rightarrow> real \<Rightarrow> assessment" where
  "mock_predict_double la lo now r =
     (let h = hour now;
          base = dbl (dbl 0.62 - dbl (dbl (real_of_int (abs (22 - h))) / dbl 44.0));
          noise = dbl (dbl (r - dbl 0.5) * dbl 0.28);
          sc = max (dbl 0.0) (min (dbl 1.0) (dbl (base + noise)));
          (lbl, col) =
            (if sc > dbl 0.75 then (''Safe'', ''green'')
             else if sc > dbl 0.45 then (''Caution'', ''orange'')
             else (''Unsafe'', ''red''));
          alt = [\<lparr>lat = dbl (la + dbl 0.0015), lng = dbl (lo + dbl 0.0006)\<rparr>,
                 \<lparr>lat = dbl (la + dbl 0.0031), lng = dbl (lo + dbl 0.0011)\<rparr>];
          stps = [''Head north for 200m'', ''Turn right at the park'',
                  ''Continue straight for 300m'']
      in \<lparr>score = py_round_float sc 3, label = lbl, color = col, alt_route = alt,
          steps = stps\<rparr>)"

text \<open>
  The score as section 4.1 of the specification words it, in the same arithmetic:
  \<open>base = 0.62 - |22 - hourOfDay(now)| / 44.0\<close>, \<open>noise = (randomSample - 0.5) * 0.28\<close>,
  \<open>score = clamp(base + noise, 0, 1)\<close>, rounded to three decimal places.
\<close>

definition clamp :: "real \<Rightarrow> real \<Rightarrow> real \<Rightarrow> real" where
  "clamp x lo hi = (if x < lo then lo else if hi < x then hi else x)"

definition spec_score :: "datetime \<Rightarrow> real \<Rightarrow> real" where
  "spec_score now randomSample =
     (let base = dbl (dbl 0.62 - dbl (dbl (real_of_int \<bar>22 - hour now\<bar>) / dbl 44.0));
          noise = dbl (dbl (randomSample - dbl 0.5) * dbl 0.28)
      in py_round_float (clamp (dbl (base + noise)) (dbl 0) (dbl 1)) 3)"

subsection \<open>Python values at the HTTP boundary\<close>

text \<open>
  A decoded JSON value, which is also how a Python value that reaches \<^verbatim>\<open>float(..)\<close>,
  \<^verbatim>\<open>.strip()\<close> or an SQL parameter is represented. A number written as an integer is
  decoded to a Python int of any size (\<open>JInt\<close>), any other number to a float (\<open>JNum\<close>, which
  holds a finite double; a number that decodes to an infinity is left out, \<^verbatim>\<open>float\<close> returns
  it as it is). An object keeps its members in document order; a later duplicate
  key overrides an earlier one, as \<^verbatim>\<open>json.loads\<close> does.
\<close>

datatype json =
    JNull
  | JBool bool
  | JInt int
  | JNum real
  | JStr string
  | JArr "json list"
  | JObj "(string \<times> json) list"

datatype error =
    ValueError
  | TypeError
  | AttributeError
  | OverflowError
  | SqliteBindError

text \<open>Python truthiness, as used by \<^verbatim>\<open>x or y\<close>.\<close>

fun truthy :: "json \<Rightarrow> bool" where
  "truthy JNull = False"
| "truthy (JBool b) = b"
| "truthy (JInt i) = (i \<noteq> 0)"
| "truthy (JNum x) = (x \<noteq> 0)"
| "truthy (JStr s) = (s \<noteq> [])"
| "truthy (JArr xs) = (xs \<noteq> [])"
| "truthy (JObj kvs) = (kvs \<noteq> [])"

text \<open>\<^verbatim>\<open>data.get(k, dflt)\<close>: the default is returned only when the key is absent.\<close>

definition dict_get :: "(string \<times> json) list \<Rightarrow> string \<Rightarrow> json \<Rightarrow> json" where
  "dict_get data k dflt = (case map_of (rev data) k of None \<Rightarrow> dflt | Some v \<Rightarrow> v)"

text \<open>
  \<^verbatim>\<open>data = request.get_json() or {}\<close> followed by the first \<^verbatim>\<open>data.get\<close>: a falsy body
  becomes the empty dictionary, a truthy body that is not an object has no \<^verbatim>\<open>get\<close>.
\<close>

definition request_data :: "json \<Rightarrow> error + (string \<times> json) list" where
  "request_data body =
     (if truthy body then (case body of JObj kvs \<Rightarrow> Inr kvs | _ \<Rightarrow> Inl AttributeError)
      else Inr [])"




subsection \<open>Text operations\<close>

text \<open>
  Characters are code points below 256. \<^verbatim>\<open>str.strip()\<close> removes the characters for which
  \<^verbatim>\<open>str.isspace\<close> holds: in this range 9-13, 28-32, 133 and 160. \<^verbatim>\<open>str.lower()\<close> maps
  A-Z and the Latin-1 capitals 192-222 (without the multiplication sign 215) 32 places up.
\<close>

definition is_space :: "char \<Rightarrow> bool" where
  "is_space c =
     (let n = (of_char c :: nat)
      in (9 \<le> n \<and> n \<le> 13) \<or> (28 \<le> n \<and> n \<le> 32) \<or> n = 133 \<or> n = 160)"

definition strip :: "string \<Rightarrow> string" where
  "strip s = rev (dropWhile is_space (rev (dropWhile is_space s)))"

definition to_lower :: "char \<Rightarrow> char" where
  "to_lower c =
     (let n = (of_char c :: nat)
      in if (65 \<le> n \<and> n \<le> 90) \<or> (192 \<le> n \<and> n \<le> 222 \<and> n \<noteq> 215)
         then char_of (n + 32) else c)"

definition lower :: "string \<Rightarrow> string" where
  "lower s = map to_lower s"

text \<open>\<^verbatim>\<open>kw in s\<close> on text: \<open>kw\<close> occurs in \<open>s\<close> as a contiguous run.\<close>

fun starts_with :: "string \<Rightarrow> string \<Rightarrow> bool" where
  "starts_with s [] = True"
| "starts_with [] (k # kw) = False"
| "starts_with (c # s) (k # kw) = (c = k \<and> starts_with s kw)"

fun str_in :: "string \<Rightarrow> string \<Rightarrow> bool" where
  "str_in kw [] = (kw = [])"
| "str_in kw (c # s) = (starts_with (c # s) kw \<or> str_in kw s)"

subsection \<open>Persistence: the SQLite file with its three tables\<close>

text \<open>
  What a \<^verbatim>\<open>TEXT\<close> column holds: NULL, a text, or the text that SQLite makes of a number
  bound to it (\<open>IntText\<close>, \<open>FloatText\<close>: the decimal text of that integer or float).
\<close>

datatype cell =
    NullCell
  | TextCell string
  | IntText int
  | FloatText real

text \<open>
  A row of each table of \<^verbatim>\<open>init_db\<close> (lines 36-59). \<open>created_at\<close> holds the clock reading
  whose \<^verbatim>\<open>isoformat()\<close> the source stores.
\<close>

record report =
  rep_id :: int
  rep_lat :: real
  rep_lng :: real
  rep_severity :: cell
  rep_note :: cell
  rep_created_at :: datetime

record share_row =
  sh_id :: int
  sh_lat :: real
  sh_lng :: real
  sh_created_at :: datetime

record chat_row =
  ch_id :: int
  ch_q :: string
  ch_a :: string
  ch_created_at :: datetime

text \<open>
  The database: each table as the list of its rows in the order of their insertion, and
  for each table the counter that \<^verbatim>\<open>AUTOINCREMENT\<close> keeps in \<^verbatim>\<open>sqlite_sequence\<close>, the
  largest id the table has ever held. Ids are unbounded integers here; the end of the
  64-bit rowid range is not modelled.
\<close>

record db =
  reports :: "report list"
  shares :: "share_row list"
  chats :: "chat_row list"
  seq_reports :: int
  seq_shares :: int
  seq_chats :: int

text \<open>
  \<^verbatim>\<open>init_db()\<close>: \<^verbatim>\<open>CREATE TABLE IF NOT EXISTS\<close> creates the three empty tables when the
  file is new (\<open>None\<close>) and changes nothing in an existing database.
\<close>

definition init_db :: "db option \<Rightarrow> db" where
  "init_db file =
     (case file of
        None \<Rightarrow> \<lparr>reports = [], shares = [], chats = [],
                  seq_reports = 0, seq_shares = 0, seq_chats = 0\<rparr>
      | Some d \<Rightarrow> d)"

text \<open>
  The id of a row inserted into an \<^verbatim>\<open>INTEGER PRIMARY KEY AUTOINCREMENT\<close> table: one more
  than the largest of the table's counter and the ids now in the table.
\<close>

definition next_rowid :: "int \<Rightarrow> int list \<Rightarrow> int" where
  "next_rowid seq ids = fold max ids seq + 1"

text \<open>
  Binding a Python value to a parameter that goes into a \<^verbatim>\<open>TEXT\<close> column. The sqlite3
  module binds None, a bool (as the integer 0 or 1), an int of the signed 64-bit range, a
  float and a text; it raises OverflowError for an int outside that range and refuses a
  list or a dictionary. The column then stores a number as its text.
\<close>

fun bind_text :: "json \<Rightarrow> error + cell" where
  "bind_text JNull = Inr NullCell"
| "bind_text (JBool b) = Inr (IntText (if b then 1 else 0))"
| "bind_text (JInt i) =
     (if i < - (2 ^ 63) \<or> 2 ^ 63 \<le> i then Inl OverflowError else Inr (IntText i))"
| "bind_text (JNum x) = Inr (FloatText x)"
| "bind_text (JStr s) = Inr (TextCell s)"
| "bind_text (JArr xs) = Inl SqliteBindError"
| "bind_text (JObj kvs) = Inl SqliteBindError"

text \<open>
  \<^verbatim>\<open>save_report\<close>, lines 81-85. The parameters are bound in their order, so a severity
  that cannot be bound raises before the note is looked at, and nothing is inserted.
\<close>

definition save_report :: "db \<Rightarrow> real \<Rightarrow> real \<Rightarrow> json \<Rightarrow> json \<Rightarrow> datetime \<Rightarrow> error + db" where
  "save_report d la lo severity note now =
     (case bind_text severity of
        Inl e \<Rightarrow> Inl e
      | Inr sev \<Rightarrow>
     (case bind_text note of
        Inl e \<Rightarrow> Inl e
      | Inr nt \<Rightarrow>
          (let i = next_rowid (seq_reports d) (map rep_id (reports d))
           in Inr (d\<lparr>reports := reports d @
                        [\<lparr>rep_id = i, rep_lat = la, rep_lng = lo, rep_severity = sev,
                          rep_note = nt, rep_created_at = now\<rparr>],
                      seq_reports := i\<rparr>))))"

text \<open>
  \<^verbatim>\<open>get_reports\<close>, lines 87-91: \<^verbatim>\<open>ORDER BY id DESC LIMIT ?\<close>. SQLite reads a negative
  limit as no limit, and the sqlite3 module refuses to bind an integer outside the signed
  64-bit range.
\<close>

definition get_reports :: "db \<Rightarrow> int \<Rightarrow> error + report list" where
  "get_reports d limit =
     (if limit < - (2 ^ 63) \<or> 2 ^ 63 \<le> limit then Inl OverflowError
      else (let rows = rev (sort_key rep_id (reports d))
            in Inr (if limit < 0 then rows else take (nat limit) rows)))"

text \<open>\<^verbatim>\<open>save_share\<close>, lines 93-96.\<close>

definition save_share :: "db \<Rightarrow> real \<Rightarrow> real \<Rightarrow> datetime \<Rightarrow> db" where
  "save_share d la lo now =
     (let i = next_rowid (seq_shares d) (map sh_id (shares d))
      in d\<lparr>shares := shares d @ [\<lparr>sh_id = i, sh_lat = la, sh_lng = lo, sh_created_at = now\<rparr>],
           seq_shares := i\<rparr>)"

text \<open>\<^verbatim>\<open>save_chat\<close>, lines 98-101.\<close>

definition save_chat :: "db \<Rightarrow> string \<Rightarrow> string \<Rightarrow> datetime \<Rightarrow> db" where
  "save_chat d q a now =
     (let i = next_rowid (seq_chats d) (map ch_id (chats d))
      in d\<lparr>chats := chats d @ [\<lparr>ch_id = i, ch_q = q, ch_a = a, ch_created_at = now\<rparr>],
           seq_chats := i\<rparr>)"

text \<open>\<^verbatim>\<open>get_chats\<close>, lines 103-107.\<close>

definition get_chats :: "db \<Rightarrow> int \<Rightarrow> error + chat_row list" where
  "get_chats d limit =
     (if limit < - (2 ^ 63) \<or> 2 ^ 63 \<le> limit then Inl OverflowError
      else (let rows = rev (sort_key ch_id (chats d))
            in Inr (if limit < 0 then rows else take (nat limit) rows)))"

subsection \<open>Web routes\<close>

text \<open>The body and status of a response without content: \<^verbatim>\<open>('', 204)\<close>.\<close>

type_synonym response = "string \<times> nat"

record route_response =
  route :: "waypoint list"
  prediction :: assessment



text \<open>
  \<^verbatim>\<open>api_chat\<close>, lines 344-361. \<^verbatim>\<open>(data.get('q') or '')\<close> replaces a missing or falsy
  \<open>q\<close> by the empty text; \<^verbatim>\<open>.strip()\<close> exists on text only. The result is the new database
  and the answer \<open>a\<close> of the response \<^verbatim>\<open>{'a': a}\<close>.
\<close>

definition api_chat :: "datetime \<Rightarrow> db \<Rightarrow> json \<Rightarrow> error + db \<times> string" where
  "api_chat now d body =
     (case request_data body of
        Inl e \<Rightarrow> Inl e
      | Inr data \<Rightarrow>
          (let v = dict_get data ''q'' JNull;
               v' = (if truthy v then v else JStr [])
           in case v' of
                JStr s \<Rightarrow>
                  (let q = strip s;
                       q_low = lower q;
                       a = (if str_in ''safe'' q_low \<or> str_in ''danger'' q_low then
                              ''Mock assistant: I see mixed risk around this area. Click the map to get an exact safety score and suggested safer route.''
                            else if str_in ''route'' q_low \<or> str_in ''navigate'' q_low then
                              ''Mock assistant: Use Safer Route mode to prioritise well-lit and populated paths.''
                            else if str_in ''share'' q_low \<or> str_in ''contacts'' q_low then
                              ''Mock assistant: I can share your live location with pre-selected contacts. Start Location Share to demo.''
                            else if str_in ''help'' q_low \<or> str_in ''panic'' q_low then
                              ''Mock assistant: Press SOS now. I will notify your emergency contacts and start location share (demo).''
                            else
                              ''Mock assistant: I can show safety heatmaps, suggest safer routes, and trigger SOS. Try: ''
                                @ [CHR 0x22] @ ''Is this area safe?'' @ [CHR 0x22])
                   in Inr (save_chat d q a now, a))
              | _ \<Rightarrow> Inl AttributeError))"



text \<open>\<^verbatim>\<open>api_clear_reports\<close>, lines 393-395: \<^verbatim>\<open>DELETE FROM reports\<close>.\<close>

definition api_clear_reports :: "db \<Rightarrow> db \<times> response" where
  "api_clear_reports d = (d\<lparr>reports := []\<rparr>, ([], 204))"

subsection \<open>The chat rules as the specification words them\<close>

text \<open>
  Section 4.3 of the specification: an ordered list of rules, each a set of keywords and a
  response; the first rule one of whose keywords occurs in the text, letter case ignored,
  gives the answer; the fallback answers when no rule matches. The responses are the
  texts of the source.
\<close>

definition safety_answer :: string where
  "safety_answer =
     ''Mock assistant: I see mixed risk around this area. Click the map to get an exact safety score and suggested safer route.''"

definition route_answer :: string where
  "route_answer =
     ''Mock assistant: Use Safer Route mode to prioritise well-lit and populated paths.''"

definition share_answer :: string where
  "share_answer =
     ''Mock assistant: I can share your live location with pre-selected contacts. Start Location Share to demo.''"

definition sos_answer :: string where
  "sos_answer =
     ''Mock assistant: Press SOS now. I will notify your emergency contacts and start location share (demo).''"

definition fallback_answer :: string where
  "fallback_answer =
     ''Mock assistant: I can show safety heatmaps, suggest safer routes, and trigger SOS. Try: ''
       @ [CHR 0x22] @ ''Is this area safe?'' @ [CHR 0x22]"

text \<open>\<open>kw\<close> occurs in \<open>text\<close> up to letter case.\<close>

definition ci_substring :: "string \<Rightarrow> string \<Rightarrow> bool" where
  "ci_substring kw text = (\<exists>u. sublist u text \<and> lower u = lower kw)"

definition chat_rules :: "(string list \<times> string) list" where
  "chat_rules =
     [([''safe'', ''danger''], safety_answer),
      ([''route'', ''navigate''], route_answer),
      ([''share'', ''contacts''], share_answer),
      ([''help'', ''panic''], sos_answer)]"

fun first_match :: "(string list \<times> string) list \<Rightarrow> string \<Rightarrow> string option" where
  "first_match [] text = None"
| "first_match ((kws, answer) # rules) text =
     (if \<exists>kw \<in> set kws. ci_substring kw text then Some answer else first_match rules text)"

definition spec_classify :: "string \<Rightarrow> string" where
  "spec_classify text =
     (case first_match chat_rules text of Some answer \<Rightarrow> answer | None \<Rightarrow> fallback_answer)"

subsection \<open>Sequences of store operations\<close>

text \<open>
  The four operations the routes perform on the database. A \<^verbatim>\<open>save_report\<close> that raises
  leaves the database as it was.
\<close>

datatype store_op =
    SaveReport real real json json datetime
  | SaveShare real real datetime
  | SaveChat string string datetime
  | ClearReports

datatype table = Reports | Shares | Chats

fun apply_op :: "db \<Rightarrow> store_op \<Rightarrow> db" where
  "apply_op d (SaveReport la lo severity note now) =
     (case save_report d la lo severity note now of Inl e \<Rightarrow> d | Inr d' \<Rightarrow> d')"
| "apply_op d (SaveShare la lo now) = save_share d la lo now"
| "apply_op d (SaveChat q a now) = save_chat d q a now"
| "apply_op d ClearReports = fst (api_clear_reports d)"

definition run :: "db \<Rightarrow> store_op list \<Rightarrow> db" where
  "run d ops = foldl apply_op d ops"

text \<open>The table and id of the row an operation inserts, read off the table afterwards.\<close>

fun new_id :: "db \<Rightarrow> store_op \<Rightarrow> (table \<times> int) option" where
  "new_id d (SaveReport la lo severity note now) =
     (case save_report d la lo severity note now of
        Inl e \<Rightarrow> None
      | Inr d' \<Rightarrow> Some (Reports, rep_id (last (reports d'))))"
| "new_id d (SaveShare la lo now) = Some (Shares, sh_id (last (shares (save_share d la lo now))))"
| "new_id d (SaveChat q a now) = Some (Chats, ch_id (last (chats (save_chat d q a now))))"
| "new_id d ClearReports = None"

text \<open>The ids handed out along a sequence of operations, in order.\<close>

fun id_trace :: "db \<Rightarrow> store_op list \<Rightarrow> (table \<times> int) list" where
  "id_trace d [] = []"
| "id_trace d (x # ops) =
     (case new_id d x of None \<Rightarrow> [] | Some e \<Rightarrow> [e]) @ id_trace (apply_op d x) ops"

definition ids_of :: "table \<Rightarrow> (table \<times> int) list \<Rightarrow> int list" where
  "ids_of t tr = map snd (filter (\<lambda>e. fst e = t) tr)"

text \<open>The table an operation inserts into.\<close>

fun op_table :: "store_op \<Rightarrow> table option" where
  "op_table (SaveReport la lo severity note now) = Some Reports"
| "op_table (SaveShare la lo now) = Some Shares"
| "op_table (SaveChat q a now) = Some Chats"
| "op_table ClearReports = None"

text \<open>The counter of a table.\<close>

fun seq_of :: "table \<Rightarrow> db \<Rightarrow> int" where
  "seq_of Reports d = seq_reports d"
| "seq_of Shares d = seq_shares d"
| "seq_of Chats d = seq_chats d"

text \<open>
  What every database reached from a new file satisfies: in each table the ids grow with
  the order of insertion and none exceeds the table's counter.
\<close>

definition db_inv :: "db \<Rightarrow> bool" where
  "db_inv d =
     (sorted_wrt (<) (map rep_id (reports d)) \<and> list_all (\<lambda>i. i \<le> seq_reports d) (map rep_id (reports d))
      \<and> sorted_wrt (<) (map sh_id (shares d)) \<and> list_all (\<lambda>i. i \<le> seq_shares d) (map sh_id (shares d))
      \<and> sorted_wrt (<) (map ch_id (chats d)) \<and> list_all (\<lambda>i. i \<le> seq_chats d) (map ch_id (chats d)))"

subsection \<open>Concrete inputs\<close>

definition at22 :: datetime where
  "at22 = \<lparr>year = 2026, month = 3, day = 14, hour = 22, minute = 5, second = 0, microsecond = 0\<rparr>"

definition at04 :: datetime where
  "at04 = \<lparr>year = 2026, month = 3, day = 15, hour = 4, minute = 30, second = 0, microsecond = 0\<rparr>"



definition report_a :: store_op where
  "report_a = SaveReport 28.5 77.03125 (JStr ''High'') (JStr ''dark street'') at22"

definition report_b :: store_op where
  "report_b = SaveReport 28.25 77.0625 (JStr ''Low'') (JStr ''stray dogs'') at04"

definition one_report :: db where
  "one_report = run (init_db None) [report_a]"

section \<open>Scoring\<close>

subsection \<open>Rounding\<close>

lemma round_half_even_cases:
  "round_half_even x = \<lfloor>x\<rfloor> \<or> round_half_even x = \<lfloor>x\<rfloor> + 1"
  by (simp add: round_half_even_def Let_def)


lemma round_half_even_of_int: "round_half_even (of_int k) = k"
  by (simp add: round_half_even_def Let_def)

lemma round_half_even_mono:
  assumes "x \<le> y"
  shows "round_half_even x \<le> round_half_even y"
proof (cases "\<lfloor>x\<rfloor> = \<lfloor>y\<rfloor>")
  case True
  with assms show ?thesis
    by (auto simp: round_half_even_def Let_def)
next
  case False
  with assms have lt: "\<lfloor>x\<rfloor> + 1 \<le> \<lfloor>y\<rfloor>"
    using floor_mono [OF assms] by linarith
  have "round_half_even x \<le> \<lfloor>x\<rfloor> + 1"
    using round_half_even_cases [of x] by auto
  moreover have "\<lfloor>y\<rfloor> \<le> round_half_even y"
    using round_half_even_cases [of y] by auto
  ultimately show ?thesis using lt by linarith
qed

text \<open>Rounding keeps a value of the unit interval inside it.\<close>

lemma py_round_unit_interval:
  assumes "0 \<le> x" and "x \<le> 1"
  shows "0 \<le> py_round x n \<and> py_round x n \<le> 1"
proof -
  have p: "(0::real) < 10 ^ n" by simp
  have "round_half_even 0 \<le> round_half_even (x * 10 ^ n)"
    using assms by (intro round_half_even_mono) simp
  then have lo: "0 \<le> round_half_even (x * 10 ^ n)"
    using round_half_even_of_int [of 0] by simp
  have "x * 10 ^ n \<le> of_int (10 ^ n)"
    using assms by (simp add: mult_left_le_one_le)
  then have "round_half_even (x * 10 ^ n) \<le> round_half_even (of_int (10 ^ n))"
    by (rule round_half_even_mono)
  then have hi: "round_half_even (x * 10 ^ n) \<le> 10 ^ n"
    by (simp only: round_half_even_of_int)
  from lo have "0 \<le> py_round x n"
    by (simp add: py_round_def)
  moreover from hi have "real_of_int (round_half_even (x * 10 ^ n)) \<le> 10 ^ n"
    by (metis of_int_le_iff of_int_numeral of_int_power)
  then have "py_round x n \<le> 1"
    using p by (simp add: py_round_def)
  ultimately show ?thesis ..
qed



subsection \<open>Double precision\<close>

lemma ilog2_bounds: "0 < n \<Longrightarrow> 2 ^ ilog2 n \<le> n \<and> n < 2 ^ Suc (ilog2 n)"
proof (induction n rule: ilog2.induct)
  case (1 n)
  show ?case
  proof (cases "n < 2")
    case True
    with "1.prems" show ?thesis
      by (simp add: ilog2.simps [of n])
  next
    case False
    then have "0 < n div 2" by simp
    with "1.IH" False have IH: "2 ^ ilog2 (n div 2) \<le> n div 2"
      "n div 2 < 2 ^ Suc (ilog2 (n div 2))"
      by simp_all
    have e: "ilog2 n = Suc (ilog2 (n div 2))"
      using False by (simp add: ilog2.simps [of n])
    from IH(1) have "2 * 2 ^ ilog2 (n div 2) \<le> n"
      by linarith
    moreover from IH(2) have "n < 2 * 2 ^ Suc (ilog2 (n div 2))"
      by linarith
    ultimately show ?thesis
      by (simp add: e)
  qed
qed

lemma pow2_powr: "pow2 e = 2 powr (real_of_int e)"
proof (cases "0 \<le> e")
  case True
  then have "2 powr (real_of_int e) = 2 powr (real (nat e))" by simp
  also have "\<dots> = 2 ^ nat e" by (simp only: powr_realpow zero_less_numeral)
  finally show ?thesis
    using True by (simp add: pow2_def)
next
  case False
  then have "2 powr (real_of_int e) = 2 powr (- real (nat (- e)))" by simp
  also have "\<dots> = inverse (2 powr (real (nat (- e))))" by (simp only: powr_minus)
  also have "\<dots> = inverse (2 ^ nat (- e))" by (simp only: powr_realpow zero_less_numeral)
  finally show ?thesis
    using False by (simp add: pow2_def divide_inverse)
qed

lemma pow2_pos: "0 < pow2 e"
  by (simp add: pow2_powr)

lemma pow2_add: "pow2 (a + b) = pow2 a * pow2 b"
  by (simp add: pow2_powr powr_add)

lemma pow2_mono: "a \<le> b \<Longrightarrow> pow2 a \<le> pow2 b"
  by (simp add: pow2_powr)

lemma pow2_nat: "0 \<le> e \<Longrightarrow> pow2 e = of_int (2 ^ nat e)"
  by (simp add: pow2_def)

lemma pow2_int: "pow2 (int n) = 2 ^ n"
  by (simp add: pow2_def)

lemma pow2_neg_int: "pow2 (- int n) = 1 / 2 ^ n"
proof (cases "n = 0")
  case True
  then show ?thesis by (simp add: pow2_def)
next
  case False
  then have "\<not> 0 \<le> - int n" and "nat (- (- int n)) = n" by simp_all
  then show ?thesis by (simp only: pow2_def if_False)
qed

lemma pow2_cancel: "pow2 (- e) * pow2 e = 1"
  using pow2_add [of "- e" e] by (simp add: pow2_def)

text \<open>The binary exponent brackets the magnitude.\<close>

lemma expo_bounds:
  assumes "x \<noteq> 0"
  shows "pow2 (expo x) \<le> \<bar>x\<bar>" and "\<bar>x\<bar> < pow2 (expo x + 1)"
proof -
  define a where "a = \<bar>x\<bar>"
  have a: "0 < a" using assms by (simp add: a_def)
  have "pow2 (expo x) \<le> a \<and> a < pow2 (expo x + 1)"
  proof (cases "1 \<le> a")
    case True
    define n where "n = \<lfloor>a\<rfloor>"
    have n: "0 < n" using True by (simp add: n_def)
    have e: "expo x = int (ilog2 n)"
      using True by (simp add: expo_def a_def n_def Let_def)
    from ilog2_bounds [OF n] have lo: "2 ^ ilog2 n \<le> n" and hi: "n < 2 ^ Suc (ilog2 n)"
      by simp_all
    from lo have "real_of_int (2 ^ ilog2 n) \<le> a"
      unfolding n_def by (simp only: le_floor_iff)
    then have 1: "2 ^ ilog2 n \<le> a" by simp
    from hi have "a < real_of_int (2 ^ Suc (ilog2 n))"
      unfolding n_def by (simp only: floor_less_iff)
    then have 2: "a < 2 ^ Suc (ilog2 n)" by simp
    have "int (ilog2 n) + 1 = int (Suc (ilog2 n))" by simp
    then have "pow2 (expo x + 1) = 2 ^ Suc (ilog2 n)"
      unfolding e by (simp only: pow2_int)
    with 1 2 show ?thesis
      by (simp add: e pow2_int)
  next
    case False
    define y where "y = 1 / a"
    define c where "c = \<lceil>y\<rceil>"
    define m where "m = c - 1"
    define k where "k = Suc (ilog2 m)"
    have y: "1 < y" using False a by (simp add: y_def)
    then have c: "2 \<le> c" unfolding c_def by linarith
    then have m: "0 < m" by (simp add: m_def)
    have e: "expo x = - int k"
      using False by (simp add: expo_def a_def [symmetric] y_def [symmetric] c_def [symmetric]
          m_def [symmetric] k_def Let_def)
    from ilog2_bounds [OF m] have lo: "2 ^ ilog2 m \<le> m" and hi: "m < 2 ^ k"
      by (simp_all add: k_def)
    from hi have "c \<le> 2 ^ k" by (simp add: m_def)
    then have "real_of_int c \<le> real_of_int (2 ^ k)"
      by (simp only: of_int_le_iff)
    moreover have "y \<le> real_of_int c" unfolding c_def by linarith
    ultimately have "y \<le> real_of_int (2 ^ k)" by linarith
    then have yk: "y \<le> 2 ^ k" by simp
    from lo have "(2::int) ^ ilog2 m < c" by (simp add: m_def)
    then have "real_of_int (2 ^ ilog2 m) < y"
      unfolding c_def by (simp only: less_ceiling_iff)
    then have yl: "2 ^ ilog2 m < y" by simp
    have ay: "a = 1 / y" using a by (simp add: y_def)
    have 1: "1 / 2 ^ k \<le> a"
      unfolding ay using yk y by (simp add: frac_le)
    have 2: "a < 1 / 2 ^ ilog2 m"
      unfolding ay using yl by (simp add: frac_less2)
    have "pow2 (- int k) = 1 / 2 ^ k"
      by (rule pow2_neg_int)
    moreover have "- int k + 1 = - int (ilog2 m)"
      by (simp add: k_def)
    then have "pow2 (- int k + 1) = 1 / 2 ^ ilog2 m"
      by (simp only: pow2_neg_int)
    ultimately show ?thesis
      using 1 2 by (simp add: e)
  qed
  then show "pow2 (expo x) \<le> \<bar>x\<bar>" and "\<bar>x\<bar> < pow2 (expo x + 1)"
    by (simp_all add: a_def)
qed

text \<open>Rounding to double keeps a value of the unit interval inside it.\<close>

lemma dbl_unit_interval:
  assumes "0 \<le> q" and "q \<le> 1"
  shows "0 \<le> dbl q \<and> dbl q \<le> 1"
proof (cases "q = 0")
  case True
  then show ?thesis by (simp add: dbl_def)
next
  case False
  define E where "E = max (expo q) (- 1022)"
  define u where "u = pow2 (E - 52)"
  have q: "0 < q" using assms False by simp
  have u: "0 < u" by (simp add: u_def pow2_pos)
  have d: "dbl q = of_int (round_half_even (q / u)) * u"
    using False by (simp add: dbl_def Let_def u_def E_def)
  have "pow2 (expo q) \<le> q"
    using expo_bounds(1) [OF False] q by simp
  with assms(2) have p1: "pow2 (expo q) \<le> 1"
    by simp
  have "expo q \<le> 0"
  proof (rule ccontr)
    assume "\<not> expo q \<le> 0"
    then have "pow2 1 \<le> pow2 (expo q)"
      by (intro pow2_mono) simp
    with p1 show False
      by (simp add: pow2_def)
  qed
  then have E: "E \<le> 0" by (simp add: E_def)
  have "round_half_even 0 \<le> round_half_even (q / u)"
    using q u by (intro round_half_even_mono) simp
  then have lo: "0 \<le> round_half_even (q / u)"
    using round_half_even_of_int [of 0] by simp
  have inv: "1 / u = pow2 (52 - E)"
    using pow2_cancel [of "E - 52"] u by (simp add: u_def field_simps)
  have "q / u \<le> 1 / u"
    using assms(2) u by (simp add: divide_right_mono)
  also have "1 / u = of_int (2 ^ nat (52 - E))"
    unfolding inv using E by (intro pow2_nat) simp
  finally have "round_half_even (q / u) \<le> round_half_even (of_int (2 ^ nat (52 - E)))"
    by (rule round_half_even_mono)
  then have "round_half_even (q / u) \<le> 2 ^ nat (52 - E)"
    by (simp only: round_half_even_of_int)
  then have "real_of_int (round_half_even (q / u)) \<le> of_int (2 ^ nat (52 - E))"
    by (simp only: of_int_le_iff)
  also have "of_int (2 ^ nat (52 - E)) = pow2 (52 - E)"
    using E by (intro pow2_nat [symmetric]) simp
  finally have "of_int (round_half_even (q / u)) * u \<le> pow2 (52 - E) * u"
    using u by (simp add: mult_right_mono)
  also have "pow2 (52 - E) * u = 1"
    using pow2_cancel [of "E - 52"] by (simp add: u_def)
  finally have hi: "dbl q \<le> 1" by (simp add: d)
  from lo u have "0 \<le> dbl q" by (simp add: d)
  with hi show ?thesis by simp
qed

lemma dbl_0: "dbl 0 = 0"
  by (simp add: dbl_def)

lemma dbl_1: "dbl 1 = 1"
  by code_simp

lemma py_round_float_unit_interval:
  assumes "0 \<le> x" and "x \<le> 1"
  shows "0 \<le> py_round_float x n \<and> py_round_float x n \<le> 1"
  unfolding py_round_float_def
  using py_round_unit_interval [OF assms, of n] by (intro dbl_unit_interval) simp_all



lemma clamp_max_min: "clamp x 0 1 = max 0 (min 1 x)"
  by (simp add: clamp_def max_def min_def)

lemma dbl_literals: "dbl 0.0 = 0" "dbl 1.0 = 1"
  by (simp_all add: dbl_0 dbl_1)

subsection \<open>The dictionary of \<open>mock_predict\<close>, field by field\<close>

lemma pick_label:
  "(case (if P then (a1, b1) else if Q then (a2, b2) else (a3, b3)) of
      (lbl, col) \<Rightarrow> \<lparr>score = s, label = lbl, color = col, alt_route = al, steps = st\<rparr>)
   = \<lparr>score = s,
      label = (if P then a1 else if Q then a2 else a3),
      color = (if P then b1 else if Q then b2 else b3),
      alt_route = al, steps = st\<rparr>"
  by simp

lemma mock_predict_unfold:
  "mock_predict la lo now r =
     \<lparr>score = py_round (clamped_score now r) 3,
      label = (if clamped_score now r > 0.75 then ''Safe''
               else if clamped_score now r > 0.45 then ''Caution'' else ''Unsafe''),
      color = (if clamped_score now r > 0.75 then ''green''
               else if clamped_score now r > 0.45 then ''orange'' else ''red''),
      alt_route = [\<lparr>lat = la + 0.0015, lng = lo + 0.0006\<rparr>,
                   \<lparr>lat = la + 0.0031, lng = lo + 0.0011\<rparr>],
      steps = [''Head north for 200m'', ''Turn right at the park'',
               ''Continue straight for 300m'']\<rparr>"
  unfolding mock_predict_def clamped_score_def Let_def by (rule pick_label)

lemma clamped_score_at22: "clamped_score at22 r = max 0 (min 1 (0.62 + (r - 0.5) * 0.28))"
  by (simp add: clamped_score_def at22_def)


subsection \<open>Claims about the score\<close>




lemma mock_predict_double_score:
  "score (mock_predict_double la lo now r) =
     py_round_float
       (max (dbl 0.0) (min (dbl 1.0)
          (dbl (dbl (dbl 0.62 - dbl (dbl (real_of_int (abs (22 - hour now))) / dbl 44.0))
                + dbl (dbl (r - dbl 0.5) * dbl 0.28))))) 3"
  unfolding mock_predict_double_def Let_def
  by (simp only: pick_label assessment.select_convs)

text \<open>
  Claim C2. For every coordinate, clock reading and random sample, the score that
  \<open>mock_predict\<close> returns, computed in double precision as the interpreter does, is the
  specification's formula \<open>round(clamp(0.62 - |22 - hour| / 44.0 + (sample - 0.5) * 0.28,
  0, 1), 3)\<close> in the same arithmetic, and lies between 0 and 1. No bound on the sample or
  the hour is needed.
\<close>

theorem C2_score_formula:
  "score (mock_predict_double la lo now r) = spec_score now r
   \<and> 0 \<le> score (mock_predict_double la lo now r)
   \<and> score (mock_predict_double la lo now r) \<le> 1"
proof -
  define x where "x = dbl (dbl (dbl 0.62 - dbl (dbl (real_of_int \<bar>22 - hour now\<bar>) / dbl 44.0))
      + dbl (dbl (r - dbl 0.5) * dbl 0.28))"
  have s: "score (mock_predict_double la lo now r) = py_round_float (max 0 (min 1 x)) 3"
    unfolding mock_predict_double_score dbl_literals x_def ..
  have "spec_score now r = py_round_float (clamp x (dbl 0) (dbl 1)) 3"
    unfolding spec_score_def Let_def x_def ..
  then have "spec_score now r = py_round_float (max 0 (min 1 x)) 3"
    by (simp only: dbl_0 dbl_1 clamp_max_min)
  with s have e: "score (mock_predict_double la lo now r) = spec_score now r"
    by simp
  have "0 \<le> max 0 (min 1 x)" and "max 0 (min 1 x) \<le> 1"
    by simp_all
  then have "0 \<le> py_round_float (max 0 (min 1 x)) 3 \<and> py_round_float (max 0 (min 1 x)) 3 \<le> 1"
    by (rule py_round_float_unit_interval)
  with e s show ?thesis by simp
qed

text \<open>
  At 22:05 with the sample 0.5625 the sum \<open>0.62 + 0.0625 * 0.28\<close> is 0.6375 in exact
  arithmetic, a tie that rounds to 0.638. In double precision the sum is the double just
  below 0.6375, and the score is the double of 0.637, as the interpreter returns.
\<close>

theorem C2_score_formula_witness:
  "score (mock_predict_double 28.4595 77.0266 at22 (9 / 16)) = dbl 0.637
   \<and> spec_score at22 (9 / 16) = dbl 0.637
   \<and> dbl 0.637 = 1434396481317503 / 2251799813685248"
proof -
  have 1: "score (mock_predict_double 28.4595 77.0266 at22 (9 / 16)) = dbl 0.637"
    by code_simp
  have 2: "dbl 0.637 = 1434396481317503 / 2251799813685248"
    by code_simp
  from C2_score_formula [of "28.4595" "77.0266" at22 "9 / 16"] 1
  have "spec_score at22 (9 / 16) = dbl 0.637"
    by simp
  with 1 2 show ?thesis by simp
qed

text \<open>
  Claim C9. Two calls with the same clock reading and the same random sample return the
  same score, label, colour and steps whatever the coordinates are; the results differ in
  the alternate route only, which is the one field computed from the coordinates.
\<close>

theorem C9_coordinate_independent:
  "score (mock_predict la1 lo1 now r) = score (mock_predict la2 lo2 now r)
   \<and> label (mock_predict la1 lo1 now r) = label (mock_predict la2 lo2 now r)
   \<and> color (mock_predict la1 lo1 now r) = color (mock_predict la2 lo2 now r)
   \<and> steps (mock_predict la1 lo1 now r) = steps (mock_predict la2 lo2 now r)
   \<and> mock_predict la1 lo1 now r = (mock_predict la2 lo2 now r)\<lparr>alt_route :=
        [\<lparr>lat = la1 + 0.0015, lng = lo1 + 0.0006\<rparr>, \<lparr>lat = la1 + 0.0031, lng = lo1 + 0.0011\<rparr>]\<rparr>"
  by (simp add: mock_predict_unfold)

theorem C9_coordinate_independent_witness:
  "label (mock_predict 28.4595 77.0266 at22 (99 / 100)) = ''Safe''
   \<and> label (mock_predict (- 33.9) 151.2 at22 (99 / 100)) = ''Safe''"
proof -
  have "label (mock_predict 28.4595 77.0266 at22 (99 / 100)) = ''Safe''"
    by (simp add: mock_predict_unfold clamped_score_at22)
  then show ?thesis
    using C9_coordinate_independent [of "28.4595" "77.0266" at22 "99 / 100" "- 33.9" "151.2"]
    by simp
qed

section \<open>Routes\<close>





section \<open>Write endpoints\<close>











section \<open>Clearing the reports\<close>

text \<open>
  Claim C8. After \<open>/api/clear_reports\<close> the reports table is empty, and the shares and the
  chats are what they were, as is everything \<open>get_chats\<close> returns; the counter of the
  reports table is kept as well.
\<close>

theorem C8_clear_reports_frame:
  "reports (fst (api_clear_reports d)) = []
   \<and> shares (fst (api_clear_reports d)) = shares d
   \<and> chats (fst (api_clear_reports d)) = chats d
   \<and> get_chats (fst (api_clear_reports d)) n = get_chats d n
   \<and> seq_reports (fst (api_clear_reports d)) = seq_reports d
   \<and> snd (api_clear_reports d) = ([], 204)"
  by (simp add: api_clear_reports_def get_chats_def)

theorem C8_clear_reports_frame_witness:
  "reports (fst (api_clear_reports one_report)) = []
   \<and> reports one_report \<noteq> []
   \<and> seq_reports (fst (api_clear_reports one_report)) = 1"
proof -
  have "reports one_report \<noteq> []" "seq_reports one_report = 1"
    by (simp_all add: one_report_def report_a_def run_def init_db_def save_report_def
        next_rowid_def)
  then show ?thesis
    using C8_clear_reports_frame [of one_report] by simp
qed

section \<open>Chat\<close>

lemma strip_blank:
  assumes "\<forall>c \<in> set s. is_space c"
  shows "strip s = []"
proof -
  from assms have e: "dropWhile is_space s = []"
    by (simp only: dropWhile_eq_Nil_conv)
  show ?thesis
    unfolding strip_def e by simp
qed

lemma fallback_chain:
  "(if str_in ''safe'' [] \<or> str_in ''danger'' [] then a1
    else if str_in ''route'' [] \<or> str_in ''navigate'' [] then a2
    else if str_in ''share'' [] \<or> str_in ''contacts'' [] then a3
    else if str_in ''help'' [] \<or> str_in ''panic'' [] then a4
    else a5) = a5"
  by simp

lemma api_chat_text:
  assumes "request_data body = Inr data"
    and "(if truthy (dict_get data ''q'' JNull) then dict_get data ''q'' JNull else JStr []) = JStr s"
  shows "api_chat now d body =
    (let q_low = lower (strip s);
         a = (if str_in ''safe'' q_low \<or> str_in ''danger'' q_low then safety_answer
              else if str_in ''route'' q_low \<or> str_in ''navigate'' q_low then route_answer
              else if str_in ''share'' q_low \<or> str_in ''contacts'' q_low then share_answer
              else if str_in ''help'' q_low \<or> str_in ''panic'' q_low then sos_answer
              else fallback_answer)
     in Inr (save_chat d (strip s) a now, a))"
  unfolding api_chat_def assms Let_def json.case sum.case
    safety_answer_def route_answer_def share_answer_def sos_answer_def fallback_answer_def
  by (rule refl)

text \<open>
  Claim C10. A chat request whose \<open>q\<close> is missing, falsy (empty text, \<^verbatim>\<open>null\<close>) or
  made of whitespace only is not rejected: the answer is the fallback response, and one
  chat row is added whose question is the empty text and whose answer is that response.
\<close>

theorem C10_blank_question:
  assumes "request_data body = Inr data"
    and "map_of (rev data) ''q'' = None
       \<or> (\<exists>v. map_of (rev data) ''q'' = Some v \<and> \<not> truthy v)
       \<or> (\<exists>s. map_of (rev data) ''q'' = Some (JStr s) \<and> (\<forall>c \<in> set s. is_space c))"
  shows "api_chat now d body = Inr (save_chat d [] fallback_answer now, fallback_answer)
    \<and> chats (save_chat d [] fallback_answer now) =
        chats d @ [\<lparr>ch_id = next_rowid (seq_chats d) (map ch_id (chats d)), ch_q = [],
                     ch_a = fallback_answer, ch_created_at = now\<rparr>]"
proof -
  from assms(2) have "\<exists>s. (if truthy (dict_get data ''q'' JNull) then dict_get data ''q'' JNull
      else JStr []) = JStr s \<and> (\<forall>c \<in> set s. is_space c)"
  proof (elim disjE exE conjE)
    assume "map_of (rev data) ''q'' = None"
    then show ?thesis by (simp add: dict_get_def)
  next
    fix v
    assume "map_of (rev data) ''q'' = Some v" and "\<not> truthy v"
    then show ?thesis by (simp add: dict_get_def)
  next
    fix s
    assume "map_of (rev data) ''q'' = Some (JStr s)" and "\<forall>c \<in> set s. is_space c"
    then show ?thesis by (cases "s = []") (simp_all add: dict_get_def)
  qed
  then obtain s where
    s: "(if truthy (dict_get data ''q'' JNull) then dict_get data ''q'' JNull else JStr []) = JStr s"
    and blank: "\<forall>c \<in> set s. is_space c"
    by blast
  have "strip s = []"
    using blank by (rule strip_blank)
  then have "api_chat now d body = Inr (save_chat d [] fallback_answer now, fallback_answer)"
    by (simp add: api_chat_text [OF assms(1) s] lower_def)
  moreover have "chats (save_chat d [] fallback_answer now) =
        chats d @ [\<lparr>ch_id = next_rowid (seq_chats d) (map ch_id (chats d)), ch_q = [],
                     ch_a = fallback_answer, ch_created_at = now\<rparr>]"
    by (simp add: save_chat_def Let_def)
  ultimately show ?thesis ..
qed

text \<open>A question of three blanks, and a body that is \<^verbatim>\<open>null\<close>, on a new database.\<close>

theorem C10_blank_question_witness:
  "api_chat at22 (init_db None) (JObj [(''q'', JStr ''   '')]) =
     Inr (save_chat (init_db None) [] fallback_answer at22, fallback_answer)
   \<and> api_chat at22 (init_db None) JNull =
     Inr (save_chat (init_db None) [] fallback_answer at22, fallback_answer)
   \<and> map ch_q (chats (save_chat (init_db None) [] fallback_answer at22)) = ['''']"
proof -
  have r1: "request_data (JObj [(''q'', JStr ''   '')]) = Inr [(''q'', JStr ''   '')]"
    by (simp add: request_data_def)
  have h1: "map_of (rev [(''q'', JStr ''   '')]) ''q'' = None
       \<or> (\<exists>v. map_of (rev [(''q'', JStr ''   '')]) ''q'' = Some v \<and> \<not> truthy v)
       \<or> (\<exists>s. map_of (rev [(''q'', JStr ''   '')]) ''q'' = Some (JStr s) \<and> (\<forall>c \<in> set s. is_space c))"
    by (simp add: is_space_def)
  have r2: "request_data JNull = Inr []"
    by (simp add: request_data_def)
  have h2: "map_of (rev []) ''q'' = None
       \<or> (\<exists>v. map_of (rev []) ''q'' = Some v \<and> \<not> truthy v)
       \<or> (\<exists>s. map_of (rev []) ''q'' = Some (JStr s) \<and> (\<forall>c \<in> set s. is_space c))"
    by simp
  have "map ch_q (chats (save_chat (init_db None) [] fallback_answer at22)) = ['''']"
    using C10_blank_question [OF r1 h1, of at22 "init_db None"]
    by (simp add: init_db_def)
  then show ?thesis
    using C10_blank_question [OF r1 h1, of at22 "init_db None"]
      C10_blank_question [OF r2 h2, of at22 "init_db None"]
    by simp
qed

subsection \<open>Substring search\<close>

lemma starts_with_prefix: "starts_with s kw \<longleftrightarrow> prefix kw s"
  by (induction s kw rule: starts_with.induct) auto

lemma str_in_sublist: "str_in kw s \<longleftrightarrow> sublist kw s"
proof (induction s)
  case Nil
  then show ?case by simp
next
  case (Cons c s)
  then show ?case
    by (simp add: starts_with_prefix sublist_Cons_right)
qed

text \<open>
  An occurrence up to letter case is an occurrence of the lowered keyword in the lowered
  text.
\<close>

lemma ci_substring_lower: "ci_substring kw msg \<longleftrightarrow> sublist (lower kw) (lower msg)"
proof
  assume "ci_substring kw msg"
  then obtain u where "sublist u msg" and "lower u = lower kw"
    by (auto simp: ci_substring_def)
  then show "sublist (lower kw) (lower msg)"
    using map_mono_sublist [of u msg to_lower] by (simp add: lower_def)
next
  assume "sublist (lower kw) (lower msg)"
  then obtain ps ss where "map to_lower msg = ps @ map to_lower kw @ ss"
    by (auto simp: sublist_def lower_def)
  then have "\<exists>us vs. msg = us @ vs \<and> ps = map to_lower us
      \<and> map to_lower kw @ ss = map to_lower vs"
    by (simp only: map_eq_append_conv)
  then obtain us rest where 1: "msg = us @ rest"
    and r: "map to_lower kw @ ss = map to_lower rest"
    by blast
  from r have "\<exists>vs ws. rest = vs @ ws \<and> map to_lower kw = map to_lower vs
      \<and> ss = map to_lower ws"
    by (simp only: append_eq_map_conv)
  then obtain vs ws where 2: "rest = vs @ ws" and 3: "map to_lower vs = map to_lower kw"
    by auto
  from 1 2 have "sublist vs msg"
    by (auto simp: sublist_def)
  with 3 have "\<exists>u. sublist u msg \<and> lower u = lower kw"
    unfolding lower_def by blast
  then show "ci_substring kw msg"
    by (simp add: ci_substring_def)
qed

subsection \<open>Stripping does not change what the keywords find\<close>

lemma sublist_skip_foreign_prefix:
  assumes "kw \<noteq> []" and "set p \<inter> set kw = {}"
  shows "sublist kw (p @ m) \<longleftrightarrow> sublist kw m"
  using assms(2)
proof (induction p)
  case Nil
  then show ?case by simp
next
  case (Cons c p)
  from \<open>kw \<noteq> []\<close> obtain k kw' where kw: "kw = k # kw'"
    by (cases kw) auto
  from Cons.prems have "c \<noteq> k"
    by (auto simp: kw)
  then have "\<not> prefix kw (c # p @ m)"
    by (simp add: kw)
  moreover from Cons have "sublist kw (p @ m) \<longleftrightarrow> sublist kw m"
    by simp
  ultimately show ?case
    by (simp add: sublist_Cons_right)
qed

lemma sublist_skip_foreign_suffix:
  assumes "kw \<noteq> []" and "set q \<inter> set kw = {}"
  shows "sublist kw (m @ q) \<longleftrightarrow> sublist kw m"
proof -
  have "sublist kw (m @ q) \<longleftrightarrow> sublist (rev kw) (rev q @ rev m)"
    using sublist_rev [of kw "m @ q"] by simp
  also have "\<dots> \<longleftrightarrow> sublist (rev kw) (rev m)"
    using assms by (intro sublist_skip_foreign_prefix) auto
  also have "\<dots> \<longleftrightarrow> sublist kw m"
    by (rule sublist_rev)
  finally show ?thesis .
qed

lemma strip_decompose:
  "\<exists>p q. s = p @ strip s @ q \<and> (\<forall>c \<in> set p. is_space c) \<and> (\<forall>c \<in> set q. is_space c)"
proof -
  define m where "m = dropWhile is_space s"
  define p where "p = takeWhile is_space s"
  define q where "q = rev (takeWhile is_space (rev m))"
  have s: "s = p @ m"
    by (simp add: p_def m_def)
  have "m = rev (rev m)"
    by simp
  also have "\<dots> = rev (takeWhile is_space (rev m) @ dropWhile is_space (rev m))"
    by (simp only: takeWhile_dropWhile_id)
  also have "\<dots> = rev (dropWhile is_space (rev m)) @ rev (takeWhile is_space (rev m))"
    by (simp only: rev_append)
  finally have m: "m = strip s @ q"
    unfolding strip_def q_def m_def .
  have "\<forall>c \<in> set p. is_space c"
    by (auto simp: p_def dest: set_takeWhileD)
  moreover have "\<forall>c \<in> set q. is_space c"
    by (auto simp: q_def dest: set_takeWhileD)
  ultimately show ?thesis
    using s m by blast
qed

lemma to_lower_space: "is_space c \<Longrightarrow> to_lower c = c"
  unfolding is_space_def to_lower_def Let_def
  by (cases "65 \<le> (of_char c :: nat) \<and> (of_char c :: nat) \<le> 90
      \<or> 192 \<le> (of_char c :: nat) \<and> (of_char c :: nat) \<le> 222 \<and> (of_char c :: nat) \<noteq> 215")
    (simp_all only: if_True if_False, linarith)

lemma lower_spaces: "\<forall>c \<in> set p. is_space c \<Longrightarrow> lower p = p"
  by (simp add: lower_def to_lower_space map_idI)

text \<open>
  A keyword without whitespace occurs in the lowered stripped text exactly when it occurs
  in the lowered text.
\<close>

lemma sublist_lower_strip:
  assumes "kw \<noteq> []" and "\<forall>c \<in> set kw. \<not> is_space c"
  shows "sublist kw (lower (strip s)) \<longleftrightarrow> sublist kw (lower s)"
proof -
  obtain p q where s: "s = p @ strip s @ q"
    and p: "\<forall>c \<in> set p. is_space c" and q: "\<forall>c \<in> set q. is_space c"
    using strip_decompose by blast
  have "lower s = lower p @ lower (strip s) @ lower q"
    by (subst s) (simp add: lower_def)
  then have e: "lower s = p @ lower (strip s) @ q"
    using p q by (simp add: lower_spaces)
  have "set p \<inter> set kw = {}" and "set q \<inter> set kw = {}"
    using p q assms(2) by auto
  then have "sublist kw (p @ lower (strip s) @ q) \<longleftrightarrow> sublist kw (lower (strip s))"
    using assms(1) by (simp add: sublist_skip_foreign_prefix sublist_skip_foreign_suffix)
  with e show ?thesis by simp
qed

lemma keyword_found:
  assumes "kw \<noteq> []" and "\<forall>c \<in> set kw. \<not> is_space c" and "lower kw = kw"
  shows "str_in kw (lower (strip s)) \<longleftrightarrow> ci_substring kw s"
  using assms by (simp add: str_in_sublist sublist_lower_strip ci_substring_lower)

lemma keywords_plain:
  "list_all (\<lambda>kw. kw \<noteq> [] \<and> list_all (\<lambda>c. \<not> is_space c) kw \<and> lower kw = kw)
     [''safe'', ''danger'', ''route'', ''navigate'', ''share'', ''contacts'', ''help'', ''panic'']"
  by code_simp

lemma keywords_found:
  assumes "kw \<in> set [''safe'', ''danger'', ''route'', ''navigate'', ''share'', ''contacts'',
    ''help'', ''panic'']"
  shows "str_in kw (lower (strip s)) \<longleftrightarrow> ci_substring kw s"
proof -
  from assms keywords_plain
  have "kw \<noteq> [] \<and> list_all (\<lambda>c. \<not> is_space c) kw \<and> lower kw = kw"
    unfolding list_all_iff [of _ "[''safe'', ''danger'', ''route'', ''navigate'', ''share'',
      ''contacts'', ''help'', ''panic'']"] by blast
  then show ?thesis
    by (intro keyword_found) (simp_all add: list_all_iff)
qed

lemma spec_classify_chain:
  "spec_classify s =
     (if ci_substring ''safe'' s \<or> ci_substring ''danger'' s then safety_answer
      else if ci_substring ''route'' s \<or> ci_substring ''navigate'' s then route_answer
      else if ci_substring ''share'' s \<or> ci_substring ''contacts'' s then share_answer
      else if ci_substring ''help'' s \<or> ci_substring ''panic'' s then sos_answer
      else fallback_answer)"
  unfolding spec_classify_def chat_rules_def first_match.simps list.set bex_simps
    ball_simps Set.bex_simps
  by (simp only: insert_iff empty_iff bex_disj_distrib simp_thms split: if_split) auto

subsection \<open>Claims about the chat rules\<close>

lemma q_text:
  assumes "map_of (rev data) ''q'' = Some (JStr msg)"
  shows "(if truthy (dict_get data ''q'' JNull) then dict_get data ''q'' JNull else JStr []) = JStr msg"
  using assms by (cases "msg = []") (simp_all add: dict_get_def)

lemma api_chat_safe:
  assumes "request_data body = Inr data" and "map_of (rev data) ''q'' = Some (JStr msg)"
    and "str_in ''safe'' (lower (strip msg))"
  shows "api_chat now d body = Inr (save_chat d (strip msg) safety_answer now, safety_answer)"
  unfolding api_chat_text [OF assms(1) q_text [OF assms(2)]] Let_def
  using assms(3) by (simp only: simp_thms if_True)

lemma example_questions:
  "strip ''help me find a safe route'' = ''help me find a safe route''"
  "str_in ''safe'' (lower (strip ''help me find a safe route''))"
  "str_in ''help'' (lower (strip ''help me find a safe route''))"
  "strip ''Is it SAFE to share my location?'' = ''Is it SAFE to share my location?''"
  "str_in ''safe'' (lower (strip ''Is it SAFE to share my location?''))"
  "str_in ''share'' (lower (strip ''Is it SAFE to share my location?''))"
  by code_simp+

lemma answers_differ: "safety_answer \<noteq> sos_answer" "safety_answer \<noteq> share_answer"
  by (simp_all add: safety_answer_def sos_answer_def share_answer_def)

text \<open>
  Claim C5. For a chat request whose \<open>q\<close> is a text, the answer is the response of the
  first rule of the specification's ordered table one of whose keywords occurs in the
  text, letter case ignored, and the fallback response when no rule matches; the exchange
  is stored with the stripped question. In particular the question
  \<open>help me find a safe route\<close>, which contains both \<open>safe\<close> (rule 1) and \<open>help\<close> (rule 4),
  gets the safety explanation of rule 1, which is not the SOS response of rule 4.
\<close>

theorem C5_first_match_wins:
  assumes "request_data body = Inr data" and "map_of (rev data) ''q'' = Some (JStr msg)"
  shows "api_chat now d body =
           Inr (save_chat d (strip msg) (spec_classify msg) now, spec_classify msg)
    \<and> api_chat now d (JObj [(''q'', JStr ''help me find a safe route'')]) =
           Inr (save_chat d ''help me find a safe route'' safety_answer now, safety_answer)
    \<and> spec_classify ''help me find a safe route'' = safety_answer
    \<and> ci_substring ''help'' ''help me find a safe route''
    \<and> safety_answer \<noteq> sos_answer"
proof -
  have k: "str_in kw (lower (strip s)) \<longleftrightarrow> ci_substring kw s"
    if "kw \<in> set [''safe'', ''danger'', ''route'', ''navigate'', ''share'', ''contacts'',
      ''help'', ''panic'']" for kw s
    using that by (rule keywords_found)
  have ks: "str_in ''safe'' (lower (strip s)) \<longleftrightarrow> ci_substring ''safe'' s"
    "str_in ''danger'' (lower (strip s)) \<longleftrightarrow> ci_substring ''danger'' s"
    "str_in ''route'' (lower (strip s)) \<longleftrightarrow> ci_substring ''route'' s"
    "str_in ''navigate'' (lower (strip s)) \<longleftrightarrow> ci_substring ''navigate'' s"
    "str_in ''share'' (lower (strip s)) \<longleftrightarrow> ci_substring ''share'' s"
    "str_in ''contacts'' (lower (strip s)) \<longleftrightarrow> ci_substring ''contacts'' s"
    "str_in ''help'' (lower (strip s)) \<longleftrightarrow> ci_substring ''help'' s"
    "str_in ''panic'' (lower (strip s)) \<longleftrightarrow> ci_substring ''panic'' s" for s
    by (rule k, simp)+
  have general: "api_chat now d body =
      Inr (save_chat d (strip msg) (spec_classify msg) now, spec_classify msg)"
    unfolding api_chat_text [OF assms(1) q_text [OF assms(2)]] Let_def ks spec_classify_chain
    by (rule refl)
  have r: "request_data (JObj [(''q'', JStr ''help me find a safe route'')]) =
      Inr [(''q'', JStr ''help me find a safe route'')]"
    by (simp add: request_data_def)
  have m: "map_of (rev [(''q'', JStr ''help me find a safe route'')]) ''q'' =
      Some (JStr ''help me find a safe route'')"
    by simp
  have example: "api_chat now d (JObj [(''q'', JStr ''help me find a safe route'')]) =
      Inr (save_chat d ''help me find a safe route'' safety_answer now, safety_answer)"
    using api_chat_safe [OF r m example_questions(2), of now d]
    by (simp only: example_questions(1))
  have "ci_substring ''safe'' ''help me find a safe route''"
    using example_questions(2) by (simp only: ks)
  then have cls: "spec_classify ''help me find a safe route'' = safety_answer"
    by (simp only: spec_classify_chain simp_thms if_True)
  have hlp: "ci_substring ''help'' ''help me find a safe route''"
    using example_questions(3) by (simp only: ks)
  from general example cls hlp answers_differ(1) show ?thesis
    by blast
qed

text \<open>
  The question \<open>Is it SAFE to share my location?\<close> on a new database: it contains \<open>safe\<close>
  in capitals and \<open>share\<close>, and gets the answer of rule 1.
\<close>

theorem C5_first_match_wins_witness:
  "api_chat at22 (init_db None) (JObj [(''q'', JStr ''Is it SAFE to share my location?'')]) =
     Inr (save_chat (init_db None) ''Is it SAFE to share my location?'' safety_answer at22,
          safety_answer)
   \<and> spec_classify ''Is it SAFE to share my location?'' = safety_answer
   \<and> safety_answer \<noteq> share_answer"
proof -
  have r: "request_data (JObj [(''q'', JStr ''Is it SAFE to share my location?'')]) =
      Inr [(''q'', JStr ''Is it SAFE to share my location?'')]"
    by (simp add: request_data_def)
  have m: "map_of (rev [(''q'', JStr ''Is it SAFE to share my location?'')]) ''q'' =
      Some (JStr ''Is it SAFE to share my location?'')"
    by simp
  have direct: "api_chat at22 (init_db None)
      (JObj [(''q'', JStr ''Is it SAFE to share my location?'')]) =
      Inr (save_chat (init_db None) ''Is it SAFE to share my location?'' safety_answer at22,
           safety_answer)"
    using api_chat_safe [OF r m example_questions(5), of at22 "init_db None"]
    by (simp only: example_questions(4))
  have "api_chat at22 (init_db None)
      (JObj [(''q'', JStr ''Is it SAFE to share my location?'')]) =
      Inr (save_chat (init_db None) (strip ''Is it SAFE to share my location?'')
             (spec_classify ''Is it SAFE to share my location?'') at22,
           spec_classify ''Is it SAFE to share my location?'')"
    using C5_first_match_wins [OF r m, of at22 "init_db None"] by blast
  with direct have "spec_classify ''Is it SAFE to share my location?'' = safety_answer"
    by simp
  with direct answers_differ(2) show ?thesis
    by blast
qed

section \<open>The incident store\<close>

subsection \<open>Ids of new rows\<close>

lemma fold_max_bounded: "list_all (\<lambda>i. i \<le> s) ids \<Longrightarrow> fold max ids (s::int) = s"
  by (induction ids) (simp_all add: max_def)

lemma next_rowid_bounded: "list_all (\<lambda>i. i \<le> s) ids \<Longrightarrow> next_rowid s ids = s + 1"
  by (simp add: next_rowid_def fold_max_bounded)

lemma sorted_snoc_above:
  assumes "sorted_wrt (<) ids" and "list_all (\<lambda>i. i \<le> s) ids"
  shows "sorted_wrt (<) (ids @ [s + 1 :: int])" and "list_all (\<lambda>i. i \<le> s + 1) (ids @ [s + 1])"
  using assms by (auto simp: sorted_wrt_append list_all_iff)

lemma db_inv_init: "db_inv (init_db None)"
  by (simp add: db_inv_def init_db_def)

lemma save_report_inv:
  assumes "db_inv d" and "save_report d la lo severity note now = Inr d'"
  shows "db_inv d'"
    and "map rep_id (reports d') = map rep_id (reports d) @ [seq_reports d + 1]"
    and "seq_reports d' = seq_reports d + 1"
    and "seq_shares d' = seq_shares d" and "seq_chats d' = seq_chats d"
    and "rep_id (last (reports d')) = seq_reports d + 1"
proof -
  from assms(1) have b: "list_all (\<lambda>i. i \<le> seq_reports d) (map rep_id (reports d))"
    and s: "sorted_wrt (<) (map rep_id (reports d))"
    by (simp_all add: db_inv_def)
  from assms(2) obtain sev nt where d': "d' = d\<lparr>reports := reports d @
           [\<lparr>rep_id = seq_reports d + 1, rep_lat = la, rep_lng = lo, rep_severity = sev,
             rep_note = nt, rep_created_at = now\<rparr>],
         seq_reports := seq_reports d + 1\<rparr>"
    by (auto simp: save_report_def Let_def next_rowid_bounded [OF b] split: sum.splits)
  show "db_inv d'"
    using assms(1) sorted_snoc_above [OF s b] by (simp add: d' db_inv_def)
  show "map rep_id (reports d') = map rep_id (reports d) @ [seq_reports d + 1]"
    and "seq_reports d' = seq_reports d + 1"
    and "seq_shares d' = seq_shares d" and "seq_chats d' = seq_chats d"
    and "rep_id (last (reports d')) = seq_reports d + 1"
    by (simp_all add: d')
qed

lemma save_share_inv:
  assumes "db_inv d"
  shows "db_inv (save_share d la lo now)"
    and "shares (save_share d la lo now) =
           shares d @ [\<lparr>sh_id = seq_shares d + 1, sh_lat = la, sh_lng = lo, sh_created_at = now\<rparr>]"
    and "seq_shares (save_share d la lo now) = seq_shares d + 1"
    and "seq_reports (save_share d la lo now) = seq_reports d"
    and "seq_chats (save_share d la lo now) = seq_chats d"
    and "reports (save_share d la lo now) = reports d"
proof -
  from assms have b: "list_all (\<lambda>i. i \<le> seq_shares d) (map sh_id (shares d))"
    and s: "sorted_wrt (<) (map sh_id (shares d))"
    by (simp_all add: db_inv_def)
  have e: "save_share d la lo now = d\<lparr>shares := shares d @
           [\<lparr>sh_id = seq_shares d + 1, sh_lat = la, sh_lng = lo, sh_created_at = now\<rparr>],
         seq_shares := seq_shares d + 1\<rparr>"
    by (simp add: save_share_def Let_def next_rowid_bounded [OF b])
  show "db_inv (save_share d la lo now)"
    using assms sorted_snoc_above [OF s b] by (simp add: e db_inv_def)
  show "shares (save_share d la lo now) =
           shares d @ [\<lparr>sh_id = seq_shares d + 1, sh_lat = la, sh_lng = lo, sh_created_at = now\<rparr>]"
    and "seq_shares (save_share d la lo now) = seq_shares d + 1"
    and "seq_reports (save_share d la lo now) = seq_reports d"
    and "seq_chats (save_share d la lo now) = seq_chats d"
    and "reports (save_share d la lo now) = reports d"
    by (simp_all add: e)
qed

lemma save_chat_inv:
  assumes "db_inv d"
  shows "db_inv (save_chat d q a now)"
    and "chats (save_chat d q a now) =
           chats d @ [\<lparr>ch_id = seq_chats d + 1, ch_q = q, ch_a = a, ch_created_at = now\<rparr>]"
    and "seq_chats (save_chat d q a now) = seq_chats d + 1"
    and "seq_reports (save_chat d q a now) = seq_reports d"
    and "seq_shares (save_chat d q a now) = seq_shares d"
    and "reports (save_chat d q a now) = reports d"
proof -
  from assms have b: "list_all (\<lambda>i. i \<le> seq_chats d) (map ch_id (chats d))"
    and s: "sorted_wrt (<) (map ch_id (chats d))"
    by (simp_all add: db_inv_def)
  have e: "save_chat d q a now = d\<lparr>chats := chats d @
           [\<lparr>ch_id = seq_chats d + 1, ch_q = q, ch_a = a, ch_created_at = now\<rparr>],
         seq_chats := seq_chats d + 1\<rparr>"
    by (simp add: save_chat_def Let_def next_rowid_bounded [OF b])
  show "db_inv (save_chat d q a now)"
    using assms sorted_snoc_above [OF s b] by (simp add: e db_inv_def)
  show "chats (save_chat d q a now) =
           chats d @ [\<lparr>ch_id = seq_chats d + 1, ch_q = q, ch_a = a, ch_created_at = now\<rparr>]"
    and "seq_chats (save_chat d q a now) = seq_chats d + 1"
    and "seq_reports (save_chat d q a now) = seq_reports d"
    and "seq_shares (save_chat d q a now) = seq_shares d"
    and "reports (save_chat d q a now) = reports d"
    by (simp_all add: e)
qed

lemma clear_reports_inv:
  assumes "db_inv d"
  shows "db_inv (fst (api_clear_reports d))"
  using assms by (simp add: api_clear_reports_def db_inv_def)

lemma clear_reports_seq: "seq_of t (fst (api_clear_reports d)) = seq_of t d"
  by (cases t) (simp_all add: api_clear_reports_def)

lemma apply_op_inv: "db_inv d \<Longrightarrow> db_inv (apply_op d x)"
  by (cases x)
    (auto simp: save_report_inv(1) save_share_inv(1) save_chat_inv(1) clear_reports_inv
      split: sum.splits)

lemma run_inv: "db_inv d \<Longrightarrow> db_inv (run d ops)"
  unfolding run_def by (induction ops arbitrary: d) (simp_all add: apply_op_inv)

lemma run_Cons: "run d (x # ops) = run (apply_op d x) ops"
  by (simp add: run_def)

text \<open>
  One operation on a database that satisfies the invariant: the id it hands out, if any,
  is the table's counter plus one, which becomes the counter; the counters of the other
  tables stay.
\<close>

lemma step_ids:
  assumes "db_inv d"
  shows "new_id d x = None \<Longrightarrow> seq_of t (apply_op d x) = seq_of t d"
    and "new_id d x = Some (t', i) \<Longrightarrow>
           op_table x = Some t' \<and> i = seq_of t' d + 1
         \<and> seq_of t (apply_op d x) = (if t = t' then i else seq_of t d)"
proof -
  show "new_id d x = None \<Longrightarrow> seq_of t (apply_op d x) = seq_of t d"
    by (cases x) (auto simp: clear_reports_seq split: sum.splits)
  show "new_id d x = Some (t', i) \<Longrightarrow>
           op_table x = Some t' \<and> i = seq_of t' d + 1
         \<and> seq_of t (apply_op d x) = (if t = t' then i else seq_of t d)"
  proof (cases x)
    case (SaveReport la lo sev nt now)
    assume n: "new_id d x = Some (t', i)"
    then obtain d' where d': "save_report d la lo sev nt now = Inr d'"
      by (auto simp: SaveReport split: sum.splits)
    from n d' save_report_inv [OF assms d'] show ?thesis
      by (cases t) (auto simp: SaveReport)
  next
    case (SaveShare la lo now)
    assume "new_id d x = Some (t', i)"
    with save_share_inv [OF assms, of la lo now] show ?thesis
      by (cases t) (auto simp: SaveShare)
  next
    case (SaveChat q a now)
    assume "new_id d x = Some (t', i)"
    with save_chat_inv [OF assms, of q a now] show ?thesis
      by (cases t) (auto simp: SaveChat)
  next
    case ClearReports
    assume "new_id d x = Some (t', i)"
    then show ?thesis by (simp add: ClearReports)
  qed
qed

text \<open>Whether an operation inserts depends on the operation alone, not on the database.\<close>

lemma new_id_None_any: "new_id d x = None \<Longrightarrow> new_id d2 x = None"
  by (cases x) (auto simp: save_report_def Let_def split: sum.splits if_splits)

lemma ids_of_Nil: "ids_of t [] = []"
  by (simp add: ids_of_def)

lemma ids_of_append: "ids_of t (xs @ ys) = ids_of t xs @ ids_of t ys"
  by (simp add: ids_of_def)

lemma ids_of_single: "ids_of t [(t', i)] = (if t' = t then [i] else [])"
  by (simp add: ids_of_def)

lemma ids_of_Cons: "ids_of t ((t', i) # tr) = (if t' = t then i # ids_of t tr else ids_of t tr)"
  by (simp add: ids_of_def)

text \<open>Along any sequence of operations the ids of a table grow and lie above its counter.\<close>

lemma trace_increasing:
  assumes "db_inv d"
  shows "sorted_wrt (<) (ids_of t (id_trace d ops))
    \<and> list_all (\<lambda>i. seq_of t d < i) (ids_of t (id_trace d ops))"
  using assms
proof (induction ops arbitrary: d)
  case Nil
  then show ?case by (simp add: ids_of_Nil)
next
  case (Cons x ops)
  have inv': "db_inv (apply_op d x)"
    using Cons.prems by (rule apply_op_inv)
  note IH = Cons.IH [OF inv']
  show ?case
  proof (cases "new_id d x")
    case None
    with step_ids(1) [OF Cons.prems None, of t] IH show ?thesis
      by (simp add: ids_of_append ids_of_Nil)
  next
    case (Some e)
    obtain t' i where e: "e = (t', i)" by (cases e)
    from step_ids(2) [OF Cons.prems, of x t' i t] Some e
    have i: "i = seq_of t' d + 1"
      and s: "seq_of t (apply_op d x) = (if t = t' then i else seq_of t d)"
      by simp_all
    show ?thesis
    proof (cases "t = t'")
      case True
      with IH s i have "list_all (\<lambda>j. i < j) (ids_of t (id_trace (apply_op d x) ops))"
        by simp
      moreover from this i True
      have "list_all (\<lambda>j. seq_of t d < j) (ids_of t (id_trace (apply_op d x) ops))"
        by (auto simp: list_all_iff)
      ultimately show ?thesis
        using IH Some e True i
        by (auto simp: ids_of_Cons list_all_iff)
    next
      case False
      with IH s Some e show ?thesis
        by (auto simp: ids_of_Cons)
    qed
  qed
qed

text \<open>
  The ids of a table are those of the sequence reduced to the insertions into that table,
  started from any database with the same counter for it.
\<close>

lemma trace_independent:
  assumes "db_inv d" and "db_inv d2" and "seq_of t d = seq_of t d2"
  shows "ids_of t (id_trace d ops) =
         ids_of t (id_trace d2 (filter (\<lambda>x. op_table x = Some t) ops))"
  using assms
proof (induction ops arbitrary: d d2)
  case Nil
  then show ?case by simp
next
  case (Cons x ops)
  have inv': "db_inv (apply_op d x)"
    using Cons.prems(1) by (rule apply_op_inv)
  show ?case
  proof (cases "op_table x = Some t")
    case False
    have "ids_of t (case new_id d x of None \<Rightarrow> [] | Some e \<Rightarrow> [e]) = []"
    proof (cases "new_id d x")
      case None
      then show ?thesis by (simp add: ids_of_Nil)
    next
      case (Some e)
      obtain t' i where e: "e = (t', i)" by (cases e)
      from step_ids(2) [OF Cons.prems(1), of x t' i t] Some e False have "t' \<noteq> t"
        by auto
      with Some e show ?thesis by (simp add: ids_of_single)
    qed
    moreover have "seq_of t (apply_op d x) = seq_of t d"
    proof (cases "new_id d x")
      case None
      then show ?thesis by (rule step_ids(1) [OF Cons.prems(1)])
    next
      case (Some e)
      obtain t' i where e: "e = (t', i)" by (cases e)
      from step_ids(2) [OF Cons.prems(1), of x t' i t] Some e False show ?thesis
        by auto
    qed
    ultimately show ?thesis
      using False Cons.IH [OF inv' Cons.prems(2)] Cons.prems(3)
      by (simp add: ids_of_append)
  next
    case True
    have inv2': "db_inv (apply_op d2 x)"
      using Cons.prems(2) by (rule apply_op_inv)
    show ?thesis
    proof (cases "new_id d x")
      case None
      then have n2: "new_id d2 x = None"
        by (rule new_id_None_any)
      from step_ids(1) [OF Cons.prems(1) None, of t] step_ids(1) [OF Cons.prems(2) n2, of t]
      have "seq_of t (apply_op d x) = seq_of t (apply_op d2 x)"
        using Cons.prems(3) by simp
      from Cons.IH [OF inv' inv2' this] None n2 True show ?thesis
        by (simp add: ids_of_append ids_of_Nil)
    next
      case (Some e)
      obtain t' i where e: "e = (t', i)" by (cases e)
      from step_ids(2) [OF Cons.prems(1), of x t' i t] Some e True
      have t': "t' = t" and i: "i = seq_of t d + 1" and s: "seq_of t (apply_op d x) = i"
        by auto
      have "new_id d2 x \<noteq> None"
      proof
        assume "new_id d2 x = None"
        then have "new_id d x = None" by (rule new_id_None_any)
        with Some show False by simp
      qed
      then obtain e2 where "new_id d2 x = Some e2"
        by (cases "new_id d2 x") simp_all
      then obtain t2 i2 where n2: "new_id d2 x = Some (t2, i2)"
        by (cases e2) simp
      from step_ids(2) [OF Cons.prems(2), of x t2 i2 t] n2 True
      have t2: "t2 = t" and i2: "i2 = seq_of t d2 + 1" and s2: "seq_of t (apply_op d2 x) = i2"
        by auto
      from i i2 s s2 Cons.prems(3) have "seq_of t (apply_op d x) = seq_of t (apply_op d2 x)"
        and "i = i2"
        by simp_all
      with Cons.IH [OF inv' inv2'] Some e n2 t' t2 True show ?thesis
        by (simp add: ids_of_Cons)
    qed
  qed
qed

lemma id_trace_append: "id_trace d (a @ b) = id_trace d a @ id_trace (run d a) b"
  by (induction a arbitrary: d) (simp_all add: run_def)

lemma run_append: "run d (a @ b) = run (run d a) b"
  by (simp add: run_def)

text \<open>Every id in the reports table was handed out along the way or was there before.\<close>

lemma table_ids_in_trace:
  assumes "db_inv d"
  shows "set (map rep_id (reports (run d ops))) \<subseteq>
         set (map rep_id (reports d)) \<union> set (ids_of Reports (id_trace d ops))"
  using assms
proof (induction ops arbitrary: d)
  case Nil
  then show ?case by (simp add: run_def)
next
  case (Cons x ops)
  have inv': "db_inv (apply_op d x)"
    using Cons.prems by (rule apply_op_inv)
  have step: "set (map rep_id (reports (apply_op d x))) \<subseteq>
      set (map rep_id (reports d)) \<union> set (ids_of Reports (case new_id d x of None \<Rightarrow> [] | Some e \<Rightarrow> [e]))"
  proof (cases x)
    case (SaveReport la lo sev nt now)
    show ?thesis
    proof (cases "save_report d la lo sev nt now")
      case (Inl e)
      then show ?thesis by (simp add: SaveReport)
    next
      case (Inr d')
      with save_report_inv(2,6) [OF Cons.prems Inr] show ?thesis
        by (auto simp: SaveReport ids_of_single)
    qed
  next
    case (SaveShare la lo now)
    with save_share_inv(6) [OF Cons.prems, of la lo now] show ?thesis
      by auto
  next
    case (SaveChat q a now)
    with save_chat_inv(6) [OF Cons.prems, of q a now] show ?thesis
      by auto
  next
    case ClearReports
    then show ?thesis by (simp add: api_clear_reports_def)
  qed
  from Cons.IH [OF inv'] step show ?case
    by (auto simp: run_Cons ids_of_append)
qed

lemma strictly_increasing_distinct: "sorted_wrt (<) (xs :: int list) \<Longrightarrow> distinct xs"
  by (induction xs) auto

subsection \<open>Claims about the store\<close>

text \<open>
  Claim C7. Along every sequence of store operations on a new database, for each of the
  three tables: the ids handed out to successive inserts are strictly increasing, hence
  never repeated, and positive; they are the same ids as when only the insertions into
  that table are performed, so the three sequences are independent of one another and of
  any clearing; every id in the reports table is one that was handed out; and when the
  sequence contains a clear, no id handed out to a report before the clear is the id of a
  report in the table afterwards.
\<close>

theorem C7_ids_increasing:
  fixes ops t
  defines "tr \<equiv> id_trace (init_db None) ops"
  shows "sorted_wrt (<) (ids_of t tr)
    \<and> distinct (ids_of t tr)
    \<and> list_all (\<lambda>i. 0 < i) (ids_of t tr)
    \<and> ids_of t tr = ids_of t (id_trace (init_db None) (filter (\<lambda>x. op_table x = Some t) ops))
    \<and> set (map rep_id (reports (run (init_db None) ops))) \<subseteq> set (ids_of Reports tr)
    \<and> (\<forall>before after. ops = before @ ClearReports # after \<longrightarrow>
          set (ids_of Reports (id_trace (init_db None) before))
            \<inter> set (map rep_id (reports (run (init_db None) ops))) = {})"
proof -
  have inc: "sorted_wrt (<) (ids_of t tr)" and pos: "list_all (\<lambda>i. seq_of t (init_db None) < i) (ids_of t tr)"
    using trace_increasing [OF db_inv_init, of t ops] by (simp_all add: tr_def)
  have "seq_of t (init_db None) = 0"
    by (cases t) (simp_all add: init_db_def)
  with pos have pos': "list_all (\<lambda>i. 0 < i) (ids_of t tr)"
    by simp
  have ind: "ids_of t tr =
      ids_of t (id_trace (init_db None) (filter (\<lambda>x. op_table x = Some t) ops))"
    unfolding tr_def by (rule trace_independent [OF db_inv_init db_inv_init refl])
  have sub: "set (map rep_id (reports (run (init_db None) ops))) \<subseteq> set (ids_of Reports tr)"
    using table_ids_in_trace [OF db_inv_init, of ops] by (simp add: tr_def init_db_def)
  have clr: "set (ids_of Reports (id_trace (init_db None) before))
            \<inter> set (map rep_id (reports (run (init_db None) ops))) = {}"
    if ops: "ops = before @ ClearReports # after" for before after
  proof -
    define d1 where "d1 = run (init_db None) (before @ [ClearReports])"
    have inv1: "db_inv d1"
      unfolding d1_def by (rule run_inv [OF db_inv_init])
    have empty: "reports d1 = []"
      by (simp add: d1_def run_def api_clear_reports_def)
    have ops': "ops = (before @ [ClearReports]) @ after"
      by (simp add: ops)
    have r: "run (init_db None) ops = run d1 after"
      unfolding ops' d1_def by (rule run_append)
    have "id_trace (init_db None) ops =
        id_trace (init_db None) (before @ [ClearReports]) @ id_trace d1 after"
      unfolding ops' d1_def by (rule id_trace_append)
    also have "id_trace (init_db None) (before @ [ClearReports]) = id_trace (init_db None) before"
      by (simp add: id_trace_append)
    finally have tr': "ids_of Reports (id_trace (init_db None) ops) =
        ids_of Reports (id_trace (init_db None) before) @ ids_of Reports (id_trace d1 after)"
      by (simp add: ids_of_append)
    have "sorted_wrt (<) (ids_of Reports (id_trace (init_db None) ops))"
      using trace_increasing [OF db_inv_init, of Reports ops] by simp
    then have "distinct (ids_of Reports (id_trace (init_db None) ops))"
      by (rule strictly_increasing_distinct)
    then have "set (ids_of Reports (id_trace (init_db None) before))
        \<inter> set (ids_of Reports (id_trace d1 after)) = {}"
      unfolding tr' by simp
    moreover have "set (map rep_id (reports (run d1 after))) \<subseteq> set (ids_of Reports (id_trace d1 after))"
      using table_ids_in_trace [OF inv1, of after] by (simp add: empty)
    ultimately show ?thesis
      unfolding r by blast
  qed
  from inc strictly_increasing_distinct [OF inc] pos' ind sub clr show ?thesis
    by blast
qed

text \<open>
  A report, a clear and a second report on a new database: the ids handed out are 1 and
  2, the table holds the report 2 only, and the id 1 is not in it.
\<close>

theorem C7_ids_increasing_witness:
  "ids_of Reports (id_trace (init_db None) [report_a, ClearReports, report_b]) = [1, 2]
   \<and> map rep_id (reports (run (init_db None) [report_a, ClearReports, report_b])) = [2]
   \<and> set (ids_of Reports (id_trace (init_db None) [report_a]))
       \<inter> set (map rep_id (reports (run (init_db None) [report_a, ClearReports, report_b]))) = {}"
proof -
  have 1: "ids_of Reports (id_trace (init_db None) [report_a, ClearReports, report_b]) = [1, 2]"
    by (simp add: report_a_def report_b_def init_db_def save_report_def next_rowid_def
        api_clear_reports_def ids_of_def)
  have 2: "map rep_id (reports (run (init_db None) [report_a, ClearReports, report_b])) = [2]"
    by (simp add: report_a_def report_b_def init_db_def save_report_def next_rowid_def
        api_clear_reports_def run_def)
  have "[report_a, ClearReports, report_b] = [report_a] @ ClearReports # [report_b]"
    by simp
  with C7_ids_increasing [of Reports "[report_a, ClearReports, report_b]"]
  have "set (ids_of Reports (id_trace (init_db None) [report_a]))
       \<inter> set (map rep_id (reports (run (init_db None) [report_a, ClearReports, report_b]))) = {}"
    by blast
  with 1 2 show ?thesis by blast
qed

lemma recent_rows:
  assumes "db_inv d"
  shows "rev (sort_key rep_id (reports d)) = rev (reports d)"
    and "sorted_wrt (\<lambda>i j. j < i) (map rep_id (take k (rev (reports d))))"
proof -
  from assms have s: "sorted_wrt (<) (map rep_id (reports d))"
    by (simp add: db_inv_def)
  then have "sorted (map rep_id (reports d))"
    by (rule strict_sorted_imp_sorted)
  then show "rev (sort_key rep_id (reports d)) = rev (reports d)"
    by (simp add: sort_key_id_if_sorted)
  have "map rep_id (take k (rev (reports d))) = take k (rev (map rep_id (reports d)))"
    by (simp add: take_map rev_map)
  moreover have "sorted_wrt (\<lambda>i j. j < i) (rev (map rep_id (reports d)))"
    using s by (simp add: sorted_wrt_rev)
  ultimately show "sorted_wrt (\<lambda>i j. j < i) (map rep_id (take k (rev (reports d))))"
    by (simp add: sorted_wrt_take)
qed

text \<open>
  Claim C6. On every database reached from a new one by store operations, and for every
  limit \<open>n\<close>, a number of reports: whatever \<open>get_reports\<close> returns is at most \<open>n\<close> reports, in
  strictly descending order of id, and they are the \<open>n\<close> most recently inserted ones, the
  most recent first; and \<open>get_reports\<close> does return for every limit that SQLite can bind
  (below \<open>2^63\<close>), among them the limits 50 and 500 of the callers.
\<close>

theorem C6_recent_reports:
  fixes ops and n :: nat
  defines "d \<equiv> run (init_db None) ops"
  shows "(\<forall>rs. get_reports d (int n) = Inr rs \<longrightarrow>
            length rs \<le> n
          \<and> sorted_wrt (\<lambda>i j. j < i) (map rep_id rs)
          \<and> rs = take n (rev (reports d)))
    \<and> (int n < 2 ^ 63 \<longrightarrow> (\<exists>rs. get_reports d (int n) = Inr rs))"
proof -
  have inv: "db_inv d"
    unfolding d_def by (rule run_inv [OF db_inv_init])
  note rows = recent_rows [OF inv]
  have a: "length rs \<le> n \<and> sorted_wrt (\<lambda>i j. j < i) (map rep_id rs)
          \<and> rs = take n (rev (reports d))"
    if "get_reports d (int n) = Inr rs" for rs
  proof -
    from that have rs: "rs = take n (rev (reports d))"
      by (simp add: get_reports_def rows(1) split: if_splits)
    have "length (take n (rev (reports d))) \<le> n"
      by simp
    with rs rows(2) [of n] show ?thesis
      by simp
  qed
  have b: "\<exists>rs. get_reports d (int n) = Inr rs" if "int n < 2 ^ 63"
    using that by (simp add: get_reports_def)
  from a b show ?thesis by blast
qed

text \<open>Two reports and the limit 1: the second report alone is returned.\<close>

theorem C6_recent_reports_witness:
  "\<exists>rs. get_reports (run (init_db None) [report_a, report_b]) (int 1) = Inr rs
      \<and> length rs \<le> 1 \<and> map rep_id rs = [2] \<and> map rep_severity rs = [TextCell ''Low'']"
proof -
  have h: "int 1 < 2 ^ 63"
    by simp
  have r: "map rep_id (reports (run (init_db None) [report_a, report_b])) = [1, 2]"
    "map rep_severity (reports (run (init_db None) [report_a, report_b])) =
       [TextCell ''High'', TextCell ''Low'']"
    by (simp_all add: report_a_def report_b_def init_db_def save_report_def next_rowid_def run_def)
  note c = C6_recent_reports [of "[report_a, report_b]" 1]
  from c h obtain rs
    where g: "get_reports (run (init_db None) [report_a, report_b]) (int 1) = Inr rs"
    by blast
  with c have l: "length rs \<le> 1"
    and t: "rs = take 1 (rev (reports (run (init_db None) [report_a, report_b])))"
    by blast+
  from t have "map rep_id rs =
      take 1 (rev (map rep_id (reports (run (init_db None) [report_a, report_b]))))"
    "map rep_severity rs =
      take 1 (rev (map rep_severity (reports (run (init_db None) [report_a, report_b]))))"
    by (simp_all add: take_map rev_map)
  then have "map rep_id rs = [2]" "map rep_severity rs = [TextCell ''Low'']"
    by (simp_all add: r)
  with g l show ?thesis
    by (intro exI [of _ rs] conjI)
qed

end
